theory Spec2Isabelle
  imports Main "HOL-Library.Word"
begin

unbundle bit_operations_syntax

section \<open>Handles and Vulkan scalar types\<close>

text \<open>
  The header \<^verbatim>\<open>dxvk_meta_copy.h\<close> works with Vulkan handles and enumerations.
  Non-dispatchable handles (\<^verbatim>\<open>VkRenderPass\<close>, \<^verbatim>\<open>VkPipeline\<close>, ...) are 64-bit
  values; the enumerations \<^verbatim>\<open>VkImageViewType\<close>, \<^verbatim>\<open>VkFormat\<close> and
  \<^verbatim>\<open>VkSampleCountFlagBits\<close> are read by the code through \<^verbatim>\<open>uint32_t(...)\<close>,
  so a value of each is the 32-bit word that cast yields.
\<close>

type_synonym VkHandle = "64 word"
type_synonym VkImageViewType = "32 word"
type_synonym VkFormat = "32 word"
type_synonym VkSampleCountFlagBits = "32 word"

section \<open>Copy pipeline and copy pipeline key\<close>

text \<open>\<^verbatim>\<open>struct DxvkMetaCopyPipeline\<close>: the four handles of one copy pipeline.\<close>

record DxvkMetaCopyPipeline =
  renderPass :: VkHandle
  dsetLayout :: VkHandle
  pipeLayout :: VkHandle
  pipeHandle :: VkHandle

text \<open>\<^verbatim>\<open>struct DxvkMetaCopyPipelineKey\<close>.\<close>

record DxvkMetaCopyPipelineKey =
  viewType :: VkImageViewType
  format :: VkFormat
  samples :: VkSampleCountFlagBits

text \<open>
  \<^verbatim>\<open>bool eq(const DxvkMetaCopyPipelineKey& other) const\<close>: the conjunction of the
  three field comparisons, in the order of the source.
\<close>

definition eq :: "DxvkMetaCopyPipelineKey \<Rightarrow> DxvkMetaCopyPipelineKey \<Rightarrow> bool" where
  "eq this other =
     (viewType this = viewType other
      \<and> format this = format other
      \<and> samples this = samples other)"

text \<open>
  \<^verbatim>\<open>size_t hash() const\<close>: the three shifts and the two exclusive ors are computed
  on \<^verbatim>\<open>uint32_t\<close> (bits shifted beyond bit 31 are lost), and the result is widened
  without sign to \<^verbatim>\<open>size_t\<close>, taken here as 64 bits wide.
\<close>

definition hash32 :: "DxvkMetaCopyPipelineKey \<Rightarrow> 32 word" where
  "hash32 this =
     (push_bit 8 (format this)) XOR (push_bit 4 (samples this)) XOR (viewType this)"

definition hash :: "DxvkMetaCopyPipelineKey \<Rightarrow> 64 word" where
  "hash this = ucast (hash32 this)"

section \<open>The pipeline cache\<close>

text \<open>\<^verbatim>\<open>struct FragShaders\<close>: the fragment shader modules of one aspect class.\<close>

record FragShaders =
  frag1D :: VkHandle
  frag2D :: VkHandle
  fragMs :: VkHandle

text \<open>
  \<^verbatim>\<open>std::unordered_map<DxvkMetaCopyPipelineKey, DxvkMetaCopyPipeline, DxvkHash, DxvkEq>\<close>:
  the entries as a list of pairs. \<^verbatim>\<open>DxvkEq\<close> compares two keys with \<open>eq\<close>, so
  \<open>find_entry\<close> (the container's \<^verbatim>\<open>find\<close>) returns the value of an entry whose key
  \<open>eq\<close> accepts, and \<open>insert_entry\<close> (the container's \<^verbatim>\<open>insert\<close>) adds a pair only
  when no entry has such a key. The buckets that \<^verbatim>\<open>DxvkHash\<close> fills are not
  modelled: they decide where an entry is stored, not whether it is found.
\<close>

type_synonym PipelineMap = "(DxvkMetaCopyPipelineKey \<times> DxvkMetaCopyPipeline) list"

fun find_entry :: "PipelineMap \<Rightarrow> DxvkMetaCopyPipelineKey \<Rightarrow> DxvkMetaCopyPipeline option" where
  "find_entry [] key = None"
| "find_entry ((k, p) # es) key = (if eq k key then Some p else find_entry es key)"

definition insert_entry ::
  "PipelineMap \<Rightarrow> DxvkMetaCopyPipelineKey \<Rightarrow> DxvkMetaCopyPipeline \<Rightarrow> PipelineMap" where
  "insert_entry es key p = (case find_entry es key of None \<Rightarrow> (key, p) # es | Some _ \<Rightarrow> es)"

text \<open>
  \<^verbatim>\<open>class DxvkMetaCopyObjects\<close>: the data members of the header. \<^verbatim>\<open>m_vkd\<close> is the
  device, whose state the operations below take and return; \<^verbatim>\<open>m_mutex\<close> has no
  counterpart, since the model runs one call at a time.
\<close>

record DxvkMetaCopyObjects =
  m_sampler :: VkHandle
  m_shaderVert :: VkHandle
  m_shaderGeom :: VkHandle
  m_color :: FragShaders
  m_depth :: FragShaders
  m_pipelines :: PipelineMap

text \<open>The two kinds of failure the specification names for this component.\<close>

datatype DxvkError = UnsupportedConfiguration | ResourceCreationFailure

text \<open>
  \<^verbatim>\<open>createPipeline\<close> is declared in the header and defined elsewhere. It is a
  parameter of the model: a function from the device state and the key to a pipeline
  or an error, and the next device state. Every statement below holds for every such
  function.
\<close>

type_synonym 'd PipelineBuilder =
  "'d \<Rightarrow> DxvkMetaCopyPipelineKey \<Rightarrow> (DxvkError + DxvkMetaCopyPipeline) \<times> 'd"

text \<open>
  Modelled from the spec: the body of \<^verbatim>\<open>DxvkMetaCopyObjects::getPipeline\<close>, which the
  header only declares. Section 4.2 of the specification: on the first request for a
  key the object set is built and inserted; on a later request for the same key the
  existing entry is returned without rebuilding; a failed build propagates to the
  caller. The key is assembled from the three arguments, as its fields are declared.
\<close>

definition getPipeline ::
  "'d PipelineBuilder \<Rightarrow> DxvkMetaCopyObjects \<Rightarrow> 'd
   \<Rightarrow> VkImageViewType \<Rightarrow> VkFormat \<Rightarrow> VkSampleCountFlagBits
   \<Rightarrow> (DxvkError + DxvkMetaCopyPipeline) \<times> DxvkMetaCopyObjects \<times> 'd" where
  "getPipeline createPipeline this dev vt dstFormat dstSamples =
     (let key = \<lparr>viewType = vt, format = dstFormat, samples = dstSamples\<rparr> in
      case find_entry (m_pipelines this) key of
        Some entry \<Rightarrow> (Inr entry, this, dev)
      | None \<Rightarrow>
          (case createPipeline dev key of
             (Inl err, dev') \<Rightarrow> (Inl err, this, dev')
           | (Inr pipeline, dev') \<Rightarrow>
               (Inr pipeline,
                this\<lparr>m_pipelines := insert_entry (m_pipelines this) key pipeline\<rparr>,
                dev')))"

text \<open>
  A caller that requests the pipelines of a list of keys, one call after the other,
  and collects what each call returned.
\<close>

fun getPipelines ::
  "'d PipelineBuilder \<Rightarrow> DxvkMetaCopyObjects \<Rightarrow> 'd \<Rightarrow> DxvkMetaCopyPipelineKey list
   \<Rightarrow> (DxvkError + DxvkMetaCopyPipeline) list \<times> DxvkMetaCopyObjects \<times> 'd" where
  "getPipelines createPipeline this dev [] = ([], this, dev)"
| "getPipelines createPipeline this dev (k # ks) =
     (case getPipeline createPipeline this dev (viewType k) (format k) (samples k) of
        (r, this', dev') \<Rightarrow>
          (case getPipelines createPipeline this' dev' ks of
             (rs, this'', dev'') \<Rightarrow> (r # rs, this'', dev'')))"

text \<open>
  A builder for running the model: the device state counts the objects created so
  far, a build takes the next four handles, and a key with a format of 0
  (\<^verbatim>\<open>VK_FORMAT_UNDEFINED\<close>) is refused.
\<close>

definition counting_builder :: "nat PipelineBuilder" where
  "counting_builder n key =
     (if format key = 0 then (Inl UnsupportedConfiguration, n)
      else (Inr \<lparr>renderPass = of_nat (n + 1), dsetLayout = of_nat (n + 2),
                 pipeLayout = of_nat (n + 3), pipeHandle = of_nat (n + 4)\<rparr>, n + 4))"

definition fresh_objects :: DxvkMetaCopyObjects where
  "fresh_objects =
     \<lparr>m_sampler = 1, m_shaderVert = 2, m_shaderGeom = 3,
      m_color = \<lparr>frag1D = 4, frag2D = 5, fragMs = 6\<rparr>,
      m_depth = \<lparr>frag1D = 7, frag2D = 8, fragMs = 9\<rparr>,
      m_pipelines = []\<rparr>"

section \<open>Properties of the key\<close>

lemma eq_is_equality: "eq a b = (a = b)"
  by (cases a, cases b) (simp add: eq_def)

text \<open>
  Claim C5. For every pair of pipeline keys \<open>a\<close> and \<open>b\<close>, \<open>eq a b\<close> is true exactly
  when the view types, the formats and the sample counts of the two keys are equal.
\<close>

theorem eq_iff_fields:
  "eq a b = (viewType a = viewType b \<and> format a = format b \<and> samples a = samples b)"
  by (simp add: eq_def)

text \<open>
  Claim C6. \<open>eq\<close> and \<open>hash\<close> are total functions of the keys alone, and they are
  consistent: keys that \<open>eq\<close> accepts as equal have the same hash.
\<close>

theorem eq_implies_hash_eq:
  "eq a b \<Longrightarrow> hash a = hash b"
  by (simp add: eq_def hash_def hash32_def)

theorem eq_implies_hash_eq_witness:
  "eq \<lparr>viewType = 1, format = 37, samples = 4\<rparr> \<lparr>viewType = 1, format = 37, samples = 4\<rparr>
   \<and> hash \<lparr>viewType = 1, format = 37, samples = 4\<rparr>
     = hash \<lparr>viewType = 1, format = 37, samples = 4\<rparr>"
proof -
  have h: "eq \<lparr>viewType = 1, format = 37, samples = 4\<rparr>
              \<lparr>viewType = 1, format = 37, samples = 4\<rparr>"
    by (simp add: eq_def)
  from eq_implies_hash_eq [OF h] h show ?thesis by simp
qed

text \<open>
  Claim C10. The hash is not injective: the keys (view type 0, format 1, 16 samples)
  and (view type 0, format 2, 32 samples) differ, \<open>eq\<close> rejects the pair, and both
  hash to 0, because the sample count shifted by 4 meets the format shifted by 8.
  So there are keys that only \<open>eq\<close> tells apart.
\<close>

theorem hash_not_injective:
  "\<not> eq \<lparr>viewType = 0, format = 1, samples = 16\<rparr> \<lparr>viewType = 0, format = 2, samples = 32\<rparr>
   \<and> hash \<lparr>viewType = 0, format = 1, samples = 16\<rparr> = 0
   \<and> hash \<lparr>viewType = 0, format = 2, samples = 32\<rparr> = 0
   \<and> (\<exists>a b. a \<noteq> b \<and> \<not> eq a b \<and> hash a = hash b)"
proof -
  let ?a = "\<lparr>viewType = 0, format = 1, samples = 16\<rparr>"
  let ?b = "\<lparr>viewType = 0, format = 2, samples = 32\<rparr>"
  have ne: "\<not> eq ?a ?b" by (simp add: eq_def)
  have ha: "hash ?a = 0" by (simp add: hash_def hash32_def)
  have hb: "hash ?b = 0" by (simp add: hash_def hash32_def)
  have "?a \<noteq> ?b" by simp
  with ne ha hb have "\<exists>a b. a \<noteq> b \<and> \<not> eq a b \<and> hash a = hash b"
    by (metis (no_types))
  with ne ha hb show ?thesis by blast
qed

section \<open>Properties of the pipeline cache\<close>

subsection \<open>One call\<close>

lemma key_eta: "\<lparr>viewType = viewType k, format = format k, samples = samples k\<rparr> = k"
  by simp

lemma find_entry_map_of: "find_entry es k = map_of es k"
  by (induction es) (auto simp: eq_is_equality)

lemma find_entry_None_iff: "find_entry es k = None \<longleftrightarrow> k \<notin> set (map fst es)"
  by (simp add: find_entry_map_of map_of_eq_None_iff)

lemma getPipeline_cases:
  assumes "getPipeline c this dev v f s = (r, this', dev')"
  shows "(\<exists>p. find_entry (m_pipelines this) \<lparr>viewType = v, format = f, samples = s\<rparr> = Some p
             \<and> r = Inr p \<and> this' = this \<and> dev' = dev)
       \<or> (find_entry (m_pipelines this) \<lparr>viewType = v, format = f, samples = s\<rparr> = None \<and>
            ((\<exists>e. c dev \<lparr>viewType = v, format = f, samples = s\<rparr> = (Inl e, dev') \<and> r = Inl e \<and> this' = this)
           \<or> (\<exists>p. c dev \<lparr>viewType = v, format = f, samples = s\<rparr> = (Inr p, dev') \<and> r = Inr p
                 \<and> this' = this\<lparr>m_pipelines := (\<lparr>viewType = v, format = f, samples = s\<rparr>, p) # m_pipelines this\<rparr>)))"
  using assms
  by (auto simp: getPipeline_def Let_def insert_entry_def split: option.splits prod.splits sum.splits)

lemma getPipeline_grows:
  assumes "getPipeline c this dev v f s = (r, this', dev')"
  shows "m_pipelines this' = m_pipelines this
       \<or> (\<exists>p. r = Inr p \<and> find_entry (m_pipelines this) \<lparr>viewType = v, format = f, samples = s\<rparr> = None
            \<and> m_pipelines this' = (\<lparr>viewType = v, format = f, samples = s\<rparr>, p) # m_pipelines this)"
  using getPipeline_cases [OF assms] by auto

lemma getPipeline_distinct:
  assumes "getPipeline c this dev v f s = (r, this', dev')"
    and "distinct (map fst (m_pipelines this))"
  shows "distinct (map fst (m_pipelines this'))"
  using getPipeline_grows [OF assms(1)] assms(2)
  by (auto simp: find_entry_None_iff)

lemma getPipeline_keeps:
  assumes "getPipeline c this dev v f s = (r, this', dev')"
    and "find_entry (m_pipelines this) k = Some p"
  shows "find_entry (m_pipelines this') k = Some p"
  using getPipeline_grows [OF assms(1)] assms(2)
  by (auto simp: eq_is_equality)

lemma getPipeline_cached:
  assumes "getPipeline c this dev v f s = (Inr p, this', dev')"
  shows "find_entry (m_pipelines this') \<lparr>viewType = v, format = f, samples = s\<rparr> = Some p"
  using getPipeline_cases [OF assms] by (auto simp: eq_is_equality)

lemma getPipeline_keys:
  assumes "getPipeline c this dev v f s = (r, this', dev')"
  shows "set (map fst (m_pipelines this')) =
         set (map fst (m_pipelines this)) \<union> (case r of Inl _ \<Rightarrow> {} | Inr _ \<Rightarrow> {\<lparr>viewType = v, format = f, samples = s\<rparr>})"
  using getPipeline_cases [OF assms]
  by (auto simp: find_entry_map_of dest: map_of_SomeD intro: rev_image_eqI)

subsection \<open>A sequence of calls\<close>

lemma getPipelines_length:
  "getPipelines c this dev ks = (rs, this', dev') \<Longrightarrow> length rs = length ks"
  by (induction ks arbitrary: this dev rs) (auto split: prod.splits)

lemma getPipelines_distinct:
  "getPipelines c this dev ks = (rs, this', dev') \<Longrightarrow> distinct (map fst (m_pipelines this))
   \<Longrightarrow> distinct (map fst (m_pipelines this'))"
proof (induction ks arbitrary: this dev rs)
  case Nil
  then show ?case by simp
next
  case (Cons k ks)
  then show ?case
    by (auto split: prod.splits dest: getPipeline_distinct)
qed

lemma getPipelines_keeps:
  "getPipelines c this dev ks = (rs, this', dev') \<Longrightarrow> find_entry (m_pipelines this) k = Some p
   \<Longrightarrow> find_entry (m_pipelines this') k = Some p"
proof (induction ks arbitrary: this dev rs)
  case Nil
  then show ?case by simp
next
  case (Cons k ks)
  then show ?case
    by (auto split: prod.splits dest: getPipeline_keeps)
qed

lemma getPipelines_cached:
  "getPipelines c this dev ks = (rs, this', dev') \<Longrightarrow> i < length ks \<Longrightarrow> rs ! i = Inr p
   \<Longrightarrow> find_entry (m_pipelines this') (ks ! i) = Some p"
proof (induction ks arbitrary: this dev rs i)
  case Nil
  then show ?case by simp
next
  case (Cons k ks)
  obtain r t d where step: "getPipeline c this dev (viewType k) (format k) (samples k) = (r, t, d)"
    by (cases "getPipeline c this dev (viewType k) (format k) (samples k)") auto
  obtain rs' where rest: "getPipelines c t d ks = (rs', this', dev')" and rs: "rs = r # rs'"
    using Cons.prems(1) step by (auto split: prod.splits)
  show ?case
  proof (cases i)
    case 0
    with Cons.prems(3) rs have "r = Inr p" by simp
    with step have "find_entry (m_pipelines t) k = Some p"
      using getPipeline_cached [of c this dev "viewType k" "format k" "samples k" p t d]
      by (simp add: key_eta)
    with rest 0 show ?thesis by (simp add: getPipelines_keeps)
  next
    case (Suc j)
    with Cons.prems rs have "j < length ks" "rs' ! j = Inr p" by simp_all
    with Cons.IH [OF rest] Suc show ?thesis by simp
  qed
qed

lemma getPipelines_keys:
  "getPipelines c this dev ks = (rs, this', dev') \<Longrightarrow>
   set (map fst (m_pipelines this')) =
   set (map fst (m_pipelines this)) \<union> {k. \<exists>p. (k, Inr p) \<in> set (zip ks rs)}"
proof (induction ks arbitrary: this dev rs)
  case Nil
  then show ?case by simp
next
  case (Cons k ks)
  obtain r t d where step: "getPipeline c this dev (viewType k) (format k) (samples k) = (r, t, d)"
    by (cases "getPipeline c this dev (viewType k) (format k) (samples k)") auto
  obtain rs' where rest: "getPipelines c t d ks = (rs', this', dev')" and rs: "rs = r # rs'"
    using Cons.prems(1) step by (auto split: prod.splits)
  have a: "set (map fst (m_pipelines t)) =
         set (map fst (m_pipelines this)) \<union> (case r of Inl _ \<Rightarrow> {} | Inr _ \<Rightarrow> {k})"
    using getPipeline_keys [OF step] by (cases r) (simp_all add: key_eta)
  have b: "set (map fst (m_pipelines this')) =
        set (map fst (m_pipelines t)) \<union> {k. \<exists>p. (k, Inr p) \<in> set (zip ks rs')}"
    by (rule Cons.IH [OF rest])
  show ?case unfolding b a rs by (cases r) auto
qed


lemma at_most_one_entry:
  "distinct (map fst es) \<Longrightarrow> length (filter (\<lambda>e. eq (fst e) k) es) \<le> 1"
proof (induction es)
  case Nil
  then show ?case by simp
next
  case (Cons e es)
  show ?case
  proof (cases "fst e = k")
    case True
    with Cons.prems have "k \<notin> fst ` set es" by auto
    then have "filter (\<lambda>e. eq (fst e) k) es = []"
      by (auto simp: filter_empty_conv eq_is_equality)
    with True show ?thesis by (simp add: eq_is_equality)
  next
    case False
    with Cons show ?thesis by (simp add: eq_is_equality)
  qed
qed

lemma getPipeline_again:
  assumes "getPipeline c this dev v f s = (Inr p, this', dev')"
  shows "getPipeline c this' dev2 v f s = (Inr p, this', dev2)"
  using getPipeline_cached [OF assms] by (simp add: getPipeline_def)

text \<open>
  Claim C1. Starting from the empty cache the constructor leaves, let a caller request
  the pipelines of any list of keys. Two of these calls with equal keys that both
  return a handle bundle return the same bundle (all four handles agree), whatever the
  builder does. After the calls the keys of the cache are pairwise different, they are
  exactly the keys of the calls that returned a bundle, and the cache has as many
  entries as there are such keys.
\<close>

theorem getPipeline_idempotent_one_entry_per_key:
  assumes fresh: "m_pipelines this = []"
    and run: "getPipelines createPipeline this dev ks = (rs, this', dev')"
  shows "(\<forall>i j p q. i < length ks \<and> j < length ks \<and> eq (ks ! i) (ks ! j)
              \<and> rs ! i = Inr p \<and> rs ! j = Inr q \<longrightarrow> p = q)
       \<and> distinct (map fst (m_pipelines this'))
       \<and> set (map fst (m_pipelines this')) = {k. \<exists>p. (k, Inr p) \<in> set (zip ks rs)}
       \<and> length (m_pipelines this') = card {k. \<exists>p. (k, Inr p) \<in> set (zip ks rs)}"
proof -
  have same: "p = q"
    if "i < length ks" "j < length ks" "eq (ks ! i) (ks ! j)" "rs ! i = Inr p" "rs ! j = Inr q"
    for i j p q
  proof -
    have "find_entry (m_pipelines this') (ks ! i) = Some p"
      using getPipelines_cached [OF run that(1) that(4)] .
    moreover have "find_entry (m_pipelines this') (ks ! j) = Some q"
      using getPipelines_cached [OF run that(2) that(5)] .
    moreover have "ks ! i = ks ! j"
      using that(3) by (simp add: eq_is_equality)
    ultimately show ?thesis by simp
  qed
  have d: "distinct (map fst (m_pipelines this'))"
    using getPipelines_distinct [OF run] fresh by simp
  have k: "set (map fst (m_pipelines this')) = {k. \<exists>p. (k, Inr p) \<in> set (zip ks rs)}"
    using getPipelines_keys [OF run] fresh by simp
  have "length (m_pipelines this') = length (map fst (m_pipelines this'))" by simp
  also have "\<dots> = card (set (map fst (m_pipelines this')))"
    using d by (rule distinct_card [symmetric])
  finally have n: "length (m_pipelines this') = card {k. \<exists>p. (k, Inr p) \<in> set (zip ks rs)}"
    using k by simp
  from same d k n show ?thesis by blast
qed

theorem getPipeline_idempotent_one_entry_per_key_witness:
  "m_pipelines fresh_objects = []
   \<and> getPipelines counting_builder fresh_objects 0
        [\<lparr>viewType = 1, format = 37, samples = 1\<rparr>,
         \<lparr>viewType = 1, format = 126, samples = 1\<rparr>,
         \<lparr>viewType = 1, format = 37, samples = 1\<rparr>]
      = ([Inr \<lparr>renderPass = 1, dsetLayout = 2, pipeLayout = 3, pipeHandle = 4\<rparr>,
          Inr \<lparr>renderPass = 5, dsetLayout = 6, pipeLayout = 7, pipeHandle = 8\<rparr>,
          Inr \<lparr>renderPass = 1, dsetLayout = 2, pipeLayout = 3, pipeHandle = 4\<rparr>],
         fresh_objects\<lparr>m_pipelines :=
           [(\<lparr>viewType = 1, format = 126, samples = 1\<rparr>,
             \<lparr>renderPass = 5, dsetLayout = 6, pipeLayout = 7, pipeHandle = 8\<rparr>),
            (\<lparr>viewType = 1, format = 37, samples = 1\<rparr>,
             \<lparr>renderPass = 1, dsetLayout = 2, pipeLayout = 3, pipeHandle = 4\<rparr>)]\<rparr>,
         8)
   \<and> distinct (map fst (m_pipelines (fresh_objects\<lparr>m_pipelines :=
           [(\<lparr>viewType = 1, format = 126, samples = 1\<rparr>,
             \<lparr>renderPass = 5, dsetLayout = 6, pipeLayout = 7, pipeHandle = 8\<rparr>),
            (\<lparr>viewType = 1, format = 37, samples = 1\<rparr>,
             \<lparr>renderPass = 1, dsetLayout = 2, pipeLayout = 3, pipeHandle = 4\<rparr>)]\<rparr>)))"
proof -
  let ?ks = "[\<lparr>viewType = 1, format = 37, samples = 1\<rparr>,
              \<lparr>viewType = 1, format = 126, samples = 1\<rparr>,
              \<lparr>viewType = 1, format = 37, samples = 1\<rparr>]"
  let ?st = "fresh_objects\<lparr>m_pipelines :=
           [(\<lparr>viewType = 1, format = 126, samples = 1\<rparr>,
             \<lparr>renderPass = 5, dsetLayout = 6, pipeLayout = 7, pipeHandle = 8\<rparr>),
            (\<lparr>viewType = 1, format = 37, samples = 1\<rparr>,
             \<lparr>renderPass = 1, dsetLayout = 2, pipeLayout = 3, pipeHandle = 4\<rparr>)]\<rparr>"
  have fresh: "m_pipelines fresh_objects = []"
    by (simp add: fresh_objects_def)
  have run: "getPipelines counting_builder fresh_objects 0 ?ks
      = ([Inr \<lparr>renderPass = 1, dsetLayout = 2, pipeLayout = 3, pipeHandle = 4\<rparr>,
          Inr \<lparr>renderPass = 5, dsetLayout = 6, pipeLayout = 7, pipeHandle = 8\<rparr>,
          Inr \<lparr>renderPass = 1, dsetLayout = 2, pipeLayout = 3, pipeHandle = 4\<rparr>], ?st, 8)"
    by (simp add: getPipeline_def counting_builder_def fresh_objects_def insert_entry_def eq_def)
  from getPipeline_idempotent_one_entry_per_key [OF fresh run]
  have "distinct (map fst (m_pipelines ?st))" by blast
  with fresh run show ?thesis by blast
qed

text \<open>
  Claim C2. The cache invariant is that no two entries have the same key. It holds for
  the empty cache, and every call of \<open>getPipeline\<close> preserves it, whether the call
  finds the key, builds a pipeline or fails: after the call each key has at most one
  entry, the entries present before the call are all still there, unchanged and behind
  at most one new entry, every key found before is found after with the same bundle,
  and a key that is found is returned without a build (the device state is the same).
\<close>

theorem getPipeline_preserves_cache:
  assumes inv: "distinct (map fst (m_pipelines this))"
    and call: "getPipeline createPipeline this dev vt fmt smp = (r, this', dev')"
  shows "distinct (map fst (m_pipelines this'))
       \<and> (\<forall>k. length (filter (\<lambda>e. eq (fst e) k) (m_pipelines this')) \<le> 1)
       \<and> (\<exists>new. m_pipelines this' = new @ m_pipelines this)
       \<and> (\<forall>k p. find_entry (m_pipelines this) k = Some p
                 \<longrightarrow> find_entry (m_pipelines this') k = Some p)
       \<and> (\<forall>p. find_entry (m_pipelines this) \<lparr>viewType = vt, format = fmt, samples = smp\<rparr> = Some p
                 \<longrightarrow> r = Inr p \<and> this' = this \<and> dev' = dev)"
proof -
  have d: "distinct (map fst (m_pipelines this'))"
    using getPipeline_distinct [OF call inv] .
  then have one: "\<forall>k. length (filter (\<lambda>e. eq (fst e) k) (m_pipelines this')) \<le> 1"
    using at_most_one_entry by blast
  have app: "\<exists>new. m_pipelines this' = new @ m_pipelines this"
    using getPipeline_grows [OF call] by (metis append_Cons append_Nil)
  have keep: "\<forall>k p. find_entry (m_pipelines this) k = Some p
                 \<longrightarrow> find_entry (m_pipelines this') k = Some p"
    using getPipeline_keeps [OF call] by blast
  have hit: "\<forall>p. find_entry (m_pipelines this) \<lparr>viewType = vt, format = fmt, samples = smp\<rparr> = Some p
                 \<longrightarrow> r = Inr p \<and> this' = this \<and> dev' = dev"
    using getPipeline_cases [OF call] by auto
  from d one app keep hit show ?thesis by blast
qed


theorem getPipeline_preserves_cache_witness:
  "distinct (map fst (m_pipelines (fresh_objects\<lparr>m_pipelines :=
       [(\<lparr>viewType = 1, format = 37, samples = 1\<rparr>,
         \<lparr>renderPass = 1, dsetLayout = 2, pipeLayout = 3, pipeHandle = 4\<rparr>)]\<rparr>)))
   \<and> getPipeline counting_builder
        (fresh_objects\<lparr>m_pipelines :=
          [(\<lparr>viewType = 1, format = 37, samples = 1\<rparr>,
            \<lparr>renderPass = 1, dsetLayout = 2, pipeLayout = 3, pipeHandle = 4\<rparr>)]\<rparr>)
        4 1 126 1
      = (Inr \<lparr>renderPass = 5, dsetLayout = 6, pipeLayout = 7, pipeHandle = 8\<rparr>,
         fresh_objects\<lparr>m_pipelines :=
           [(\<lparr>viewType = 1, format = 126, samples = 1\<rparr>,
             \<lparr>renderPass = 5, dsetLayout = 6, pipeLayout = 7, pipeHandle = 8\<rparr>),
            (\<lparr>viewType = 1, format = 37, samples = 1\<rparr>,
             \<lparr>renderPass = 1, dsetLayout = 2, pipeLayout = 3, pipeHandle = 4\<rparr>)]\<rparr>,
         8)
   \<and> find_entry (m_pipelines (fresh_objects\<lparr>m_pipelines :=
           [(\<lparr>viewType = 1, format = 126, samples = 1\<rparr>,
             \<lparr>renderPass = 5, dsetLayout = 6, pipeLayout = 7, pipeHandle = 8\<rparr>),
            (\<lparr>viewType = 1, format = 37, samples = 1\<rparr>,
             \<lparr>renderPass = 1, dsetLayout = 2, pipeLayout = 3, pipeHandle = 4\<rparr>)]\<rparr>))
         \<lparr>viewType = 1, format = 37, samples = 1\<rparr>
      = Some \<lparr>renderPass = 1, dsetLayout = 2, pipeLayout = 3, pipeHandle = 4\<rparr>"
proof -
  let ?k = "\<lparr>viewType = 1, format = 37, samples = 1\<rparr>"
  let ?p = "\<lparr>renderPass = 1, dsetLayout = 2, pipeLayout = 3, pipeHandle = 4\<rparr>"
  let ?s0 = "fresh_objects\<lparr>m_pipelines := [(?k, ?p)]\<rparr>"
  let ?s1 = "fresh_objects\<lparr>m_pipelines :=
           [(\<lparr>viewType = 1, format = 126, samples = 1\<rparr>,
             \<lparr>renderPass = 5, dsetLayout = 6, pipeLayout = 7, pipeHandle = 8\<rparr>), (?k, ?p)]\<rparr>"
  have inv: "distinct (map fst (m_pipelines ?s0))"
    by simp
  have call: "getPipeline counting_builder ?s0 4 1 126 1
      = (Inr \<lparr>renderPass = 5, dsetLayout = 6, pipeLayout = 7, pipeHandle = 8\<rparr>, ?s1, 8)"
    by (simp add: getPipeline_def counting_builder_def fresh_objects_def insert_entry_def eq_def)
  have old: "find_entry (m_pipelines ?s0) ?k = Some ?p"
    by (simp add: eq_def)
  from getPipeline_preserves_cache [OF inv call] old
  have "find_entry (m_pipelines ?s1) ?k = Some ?p" by blast
  with inv call show ?thesis by blast
qed

end
